theory Spec2Isabelle
  imports Main
begin

section \<open>Runes, strings and the library functions the splitter calls\<close>

text \<open>
  The splitter reads its input rune by rune through a \<^verbatim>\<open>bufio.Reader\<close>. The model works on
  ASCII text: a rune is a \<^typ>\<open>char\<close>, a Go string is a \<^typ>\<open>string\<close>, and the tables of
  package \<^verbatim>\<open>unicode\<close> are given on the ASCII range (a character above 127 is neither a
  letter, a digit nor white space here). On ASCII text bytes and runes coincide, so the
  byte-indexed slices of \<^verbatim>\<open>readUntilDelimiter\<close> are list operations on runes.
\<close>

type_synonym rune = char

abbreviation (input) NL :: rune where "NL \<equiv> CHR 0x0A"
abbreviation (input) CR :: rune where "CR \<equiv> CHR 0x0D"
abbreviation (input) SQUOTE :: rune where "SQUOTE \<equiv> CHR 0x27"
abbreviation (input) DQUOTE :: rune where "DQUOTE \<equiv> CHR 0x22"

text \<open>\<^verbatim>\<open>unicode.IsLetter\<close>, \<^verbatim>\<open>unicode.IsDigit\<close>, \<^verbatim>\<open>unicode.IsSpace\<close> on ASCII.\<close>

definition IsLetter :: "rune \<Rightarrow> bool" where
  "IsLetter r =
     (let n = (of_char r :: nat) in (65 \<le> n \<and> n \<le> 90) \<or> (97 \<le> n \<and> n \<le> 122))"

definition IsDigit :: "rune \<Rightarrow> bool" where
  "IsDigit r = (let n = (of_char r :: nat) in 48 \<le> n \<and> n \<le> 57)"

definition IsSpace :: "rune \<Rightarrow> bool" where
  "IsSpace r = (let n = (of_char r :: nat) in (9 \<le> n \<and> n \<le> 13) \<or> n = 32)"

definition isWordRune :: "rune \<Rightarrow> bool" where
  "isWordRune r = (IsLetter r \<or> IsDigit r \<or> r = CHR ''_'')"

text \<open>\<^verbatim>\<open>strings.ToUpper\<close> on ASCII: the letters a to z move down by 32.\<close>

definition ToUpperRune :: "rune \<Rightarrow> rune" where
  "ToUpperRune r =
     (let n = (of_char r :: nat) in if 97 \<le> n \<and> n \<le> 122 then char_of (n - 32) else r)"

definition ToUpper :: "string \<Rightarrow> string" where
  "ToUpper s = map ToUpperRune s"

definition HasPrefix :: "string \<Rightarrow> string \<Rightarrow> bool" where
  "HasPrefix s p = (length p \<le> length s \<and> take (length p) s = p)"

definition HasSuffix :: "string \<Rightarrow> string \<Rightarrow> bool" where
  "HasSuffix s p = (length p \<le> length s \<and> drop (length s - length p) s = p)"

definition TrimPrefix :: "string \<Rightarrow> string \<Rightarrow> string" where
  "TrimPrefix s p = (if HasPrefix s p then drop (length p) s else s)"

definition TrimSuffix :: "string \<Rightarrow> string \<Rightarrow> string" where
  "TrimSuffix s p = (if HasSuffix s p then take (length s - length p) s else s)"

definition TrimSpace :: "string \<Rightarrow> string" where
  "TrimSpace s = rev (dropWhile IsSpace (rev (dropWhile IsSpace s)))"

text \<open>\<^verbatim>\<open>strings.Fields\<close>: the maximal runs of characters that are not white space.\<close>

fun fields_from :: "string \<Rightarrow> string \<Rightarrow> string list" where
  "fields_from cur [] = (if cur = [] then [] else [cur])"
| "fields_from cur (c # cs) =
     (if IsSpace c then (if cur = [] then fields_from [] cs else cur # fields_from [] cs)
      else fields_from (cur @ [c]) cs)"

definition Fields :: "string \<Rightarrow> string list" where
  "Fields s = fields_from [] s"

section \<open>The lexer\<close>

text \<open>
  The reader is the text still to be read. When the text is exhausted every read reports
  the error \<open>fin\<close> of the underlying \<^verbatim>\<open>io.Reader\<close>: \<^verbatim>\<open>io.EOF\<close> for a text that simply
  ends, another error for a source that breaks. A function of the tokenizer returns its
  value, the error of the Go function (\<open>None\<close> is \<^verbatim>\<open>nil\<close>) and the reader after the call.
  \<^verbatim>\<open>peekRune\<close> is a look at the head of the text; \<^verbatim>\<open>UnreadRune\<close> directly follows a
  successful \<^verbatim>\<open>ReadRune\<close> wherever the source calls it, so it does not fail, and a
  \<^verbatim>\<open>readRune\<close> after a successful \<^verbatim>\<open>peekRune\<close> returns the buffered rune.
\<close>

datatype error = EOF | ErrOther

datatype TokenType = TokenText | TokenSemicolon | TokenBegin | TokenEnd | TokenDelimiterCommand

record Token =
  Type :: TokenType
  Value :: string
  DelimiterWord :: string

definition textToken :: "string \<Rightarrow> Token" where
  "textToken v = \<lparr>Type = TokenText, Value = v, DelimiterWord = []\<rparr>"

type_synonym 'a reading = "'a \<times> error option \<times> string"

fun readQuotedString_loop :: "error \<Rightarrow> rune \<Rightarrow> string \<Rightarrow> string \<Rightarrow> Token reading" where
  "readQuotedString_loop fin quote builder [] = (textToken builder, Some fin, [])"
| "readQuotedString_loop fin quote builder (r # s) =
     (if r = quote then
        (case s of
           [] \<Rightarrow>
             (if fin \<noteq> EOF then (textToken (builder @ [r]), Some fin, [])
              else (textToken (builder @ [r]), None, []))
         | next # s' \<Rightarrow>
             if next = quote then readQuotedString_loop fin quote (builder @ [r] @ [quote]) s'
             else (textToken (builder @ [r]), None, s))
      else readQuotedString_loop fin quote (builder @ [r]) s)"

definition readQuotedString :: "error \<Rightarrow> rune \<Rightarrow> string \<Rightarrow> Token reading" where
  "readQuotedString fin quote s = readQuotedString_loop fin quote [quote] s"

fun readLineComment_loop :: "error \<Rightarrow> string \<Rightarrow> string \<Rightarrow> Token reading" where
  "readLineComment_loop fin builder [] =
     (textToken builder, (if fin = EOF then None else Some fin), [])"
| "readLineComment_loop fin builder (r # s) =
     (if r = NL then (textToken (builder @ [r]), None, s)
      else readLineComment_loop fin (builder @ [r]) s)"

definition readLineComment :: "error \<Rightarrow> string \<Rightarrow> Token reading" where
  "readLineComment fin s =
     (case s of
        [] \<Rightarrow> (textToken ''-'', (if fin = EOF then None else Some fin), [])
      | second # s' \<Rightarrow> readLineComment_loop fin (''-'' @ [second]) s')"

fun readBlockComment_loop :: "error \<Rightarrow> string \<Rightarrow> string \<Rightarrow> Token reading" where
  "readBlockComment_loop fin builder [] = (textToken builder, Some fin, [])"
| "readBlockComment_loop fin builder (r # s) =
     (if r = CHR ''*'' then
        (case s of
           [] \<Rightarrow>
             (if fin \<noteq> EOF then (textToken (builder @ [r]), Some fin, [])
              else (textToken (builder @ [r]), None, []))
         | next # s' \<Rightarrow>
             if next = CHR ''/'' then (textToken (builder @ [r] @ [next]), None, s')
             else readBlockComment_loop fin (builder @ [r]) s)
      else readBlockComment_loop fin (builder @ [r]) s)"

definition readBlockComment :: "error \<Rightarrow> string \<Rightarrow> Token reading" where
  "readBlockComment fin s =
     (case s of
        [] \<Rightarrow> (textToken ''/'', Some fin, [])
      | second # s' \<Rightarrow> readBlockComment_loop fin (''/'' @ [second]) s')"

text \<open>
  \<^verbatim>\<open>readUntilBlockDelimiter\<close> keeps the last runes read in a window as long as the closing
  tag, filled from the left and then shifted by one place per rune, and stops when the
  window spells the closing tag. The window and the tag have the same length, so the
  source's index-wise comparison is equality of the two lists.
\<close>

definition shiftWindow :: "string \<Rightarrow> rune \<Rightarrow> string" where
  "shiftWindow window r = (tl window @ [last window])[length window - 1 := r]"

fun readUntilBlockDelimiter_loop ::
  "error \<Rightarrow> string \<Rightarrow> string \<Rightarrow> string \<Rightarrow> nat \<Rightarrow> string \<Rightarrow> string reading" where
  "readUntilBlockDelimiter_loop fin endRunes builder window count [] = (builder, Some fin, [])"
| "readUntilBlockDelimiter_loop fin endRunes builder window count (r # s) =
     (let window' = (if count < length endRunes then window[count := r]
                     else shiftWindow window r);
          count' = count + 1
      in if count' \<ge> length endRunes \<and> window' = endRunes then (builder @ [r], None, s)
         else readUntilBlockDelimiter_loop fin endRunes (builder @ [r]) window' count' s)"

definition readUntilBlockDelimiter :: "error \<Rightarrow> string \<Rightarrow> string \<Rightarrow> string reading" where
  "readUntilBlockDelimiter fin tag s =
     (let endRunes = ''$'' @ tag @ ''$''
      in readUntilBlockDelimiter_loop fin endRunes [] (replicate (length endRunes) (CHR 0x00)) 0 s)"

fun readUntilRune_loop :: "error \<Rightarrow> rune \<Rightarrow> string \<Rightarrow> string \<Rightarrow> string reading" where
  "readUntilRune_loop fin delim builder [] = (builder, Some fin, [])"
| "readUntilRune_loop fin delim builder (r # s) =
     (if r = delim then (builder, None, r # s)
      else readUntilRune_loop fin delim (builder @ [r]) s)"

definition readUntilRune :: "error \<Rightarrow> rune \<Rightarrow> string \<Rightarrow> string reading" where
  "readUntilRune fin delim s = readUntilRune_loop fin delim [] s"

fun processDelimiterCommand_loop :: "error \<Rightarrow> string \<Rightarrow> string \<Rightarrow> Token reading" where
  "processDelimiterCommand_loop fin builder [] =
     (\<lparr>Type = TokenDelimiterCommand, Value = builder, DelimiterWord = []\<rparr>,
      (if fin = EOF then None else Some fin), [])"
| "processDelimiterCommand_loop fin builder (r # s) =
     (if r = NL \<or> r = CHR '';'' then
        (let fullCommand = builder @ [r];
             delimPart = TrimSpace (TrimPrefix fullCommand ''DELIMITER'')
         in (\<lparr>Type = TokenDelimiterCommand, Value = fullCommand,
              DelimiterWord = TrimSpace delimPart\<rparr>, None, s))
      else processDelimiterCommand_loop fin (builder @ [r]) s)"

definition processDelimiterCommand :: "error \<Rightarrow> string \<Rightarrow> string \<Rightarrow> Token reading" where
  "processDelimiterCommand fin commandStart s = processDelimiterCommand_loop fin commandStart s"

text \<open>The first loop of \<^verbatim>\<open>processAsBlockStart\<close>: the white space after the word.\<close>

fun skipSpace_loop :: "error \<Rightarrow> string \<Rightarrow> string \<Rightarrow> string reading" where
  "skipSpace_loop fin result [] = (result, (if fin \<noteq> EOF then Some fin else None), [])"
| "skipSpace_loop fin result (peek # s) =
     (if \<not> IsSpace peek then (result, None, peek # s)
      else skipSpace_loop fin (result @ [peek]) s)"

definition processAsBlockStart :: "error \<Rightarrow> string \<Rightarrow> string \<Rightarrow> Token reading" where
  "processAsBlockStart fin word s =
     (case skipSpace_loop fin word s of
        (result, Some e, s1) \<Rightarrow> (textToken result, Some e, s1)
      | (result, None, s1) \<Rightarrow>
          (case s1 of
             [] \<Rightarrow>
               (if fin \<noteq> EOF then (textToken result, Some fin, [])
                else (textToken result, None, []))
           | peek # s2 \<Rightarrow>
               if peek = CHR ''$'' then
                 (let result = result @ [peek] in
                  case readUntilRune fin (CHR ''$'') s2 of
                    (tag, Some e, s3) \<Rightarrow>
                      (if e \<noteq> EOF then (textToken (result @ tag), Some e, s3)
                       else (textToken (result @ tag), None, s3))
                  | (tag, None, s3) \<Rightarrow>
                      (let result = result @ tag in
                       case s3 of
                         [] \<Rightarrow>
                           (if fin \<noteq> EOF then (textToken result, Some fin, [])
                            else (textToken result, None, []))
                       | endDollar # s4 \<Rightarrow>
                           (let result = result @ [endDollar] in
                            case readUntilBlockDelimiter fin tag s4 of
                              (blockContent, Some e, s5) \<Rightarrow>
                                (if e \<noteq> EOF then (textToken result, Some e, s5)
                                 else (textToken (result @ blockContent), None, s5))
                            | (blockContent, None, s5) \<Rightarrow>
                                (textToken (result @ blockContent), None, s5))))
               else (textToken result, None, s1)))"

text \<open>The loop of \<^verbatim>\<open>readWord\<close>: the maximal run of word runes.\<close>

fun readWord_loop :: "error \<Rightarrow> string \<Rightarrow> string \<Rightarrow> string reading" where
  "readWord_loop fin builder [] = (builder, (if fin \<noteq> EOF then Some fin else None), [])"
| "readWord_loop fin builder (r # s) =
     (if \<not> isWordRune r then (builder, None, r # s)
      else readWord_loop fin (builder @ [r]) s)"

definition readWord :: "error \<Rightarrow> rune \<Rightarrow> string \<Rightarrow> Token reading" where
  "readWord fin first s =
     (case readWord_loop fin [first] s of
        (builder, Some e, s') \<Rightarrow> (textToken builder, Some e, s')
      | (word, None, s') \<Rightarrow>
          (let upperWord = ToUpper word in
           if upperWord = ''BEGIN'' then
             (\<lparr>Type = TokenBegin, Value = word, DelimiterWord = []\<rparr>, None, s')
           else if upperWord = ''END'' then
             (\<lparr>Type = TokenEnd, Value = word, DelimiterWord = []\<rparr>, None, s')
           else if upperWord = ''DELIMITER'' then processDelimiterCommand fin word s'
           else if upperWord = ''AS'' then processAsBlockStart fin word s'
           else (textToken word, None, s')))"

fun NextToken :: "error \<Rightarrow> string \<Rightarrow> Token reading" where
  "NextToken fin [] = (textToken [], Some fin, [])"
| "NextToken fin (r # s) =
     (if r = SQUOTE \<or> r = DQUOTE then readQuotedString fin r s
      else if r = CHR ''-'' then
        (case s of
           [] \<Rightarrow>
             (if fin \<noteq> EOF then (textToken [r], Some fin, []) else (textToken [r], None, []))
         | next # _ \<Rightarrow>
             if next = CHR ''-'' then readLineComment fin s else (textToken [r], None, s))
      else if r = CHR ''/'' then
        (case s of
           [] \<Rightarrow>
             (if fin \<noteq> EOF then (textToken [r], Some fin, []) else (textToken [r], None, []))
         | next # _ \<Rightarrow>
             if next = CHR ''*'' then readBlockComment fin s else (textToken [r], None, s))
      else if r = CHR '';'' then
        (\<lparr>Type = TokenSemicolon, Value = '';'', DelimiterWord = []\<rparr>, None, s)
      else if IsLetter r \<or> r = CHR ''_'' then readWord fin r s
      else (textToken [r], None, s))"

section \<open>Raw scanning under a custom delimiter\<close>

text \<open>
  \<^verbatim>\<open>readUntilDelimiter\<close> returns the content, the next delimiter, the error and the
  reader. Its loop carries the builder.
\<close>

fun readUntilDelimiter_loop ::
  "error \<Rightarrow> string \<Rightarrow> string \<Rightarrow> string \<Rightarrow> string \<times> string \<times> error option \<times> string" where
  "readUntilDelimiter_loop fin delim builder [] = (builder, delim, Some fin, [])"
| "readUntilDelimiter_loop fin delim builder (r # rest) =
     (let s = builder @ [r] in
      if HasSuffix s delim then (TrimSuffix s delim, delim, None, rest)
      else if HasSuffix (ToUpper s) ''DELIMITER'' then
        (let tmp = take (length s - length ''DELIMITER'') s in
         if tmp \<noteq> [] \<and> last tmp \<noteq> CHR '';'' \<and> \<not> IsSpace (last tmp)
         then readUntilDelimiter_loop fin delim s rest
         else
           (case rest of
              [] \<Rightarrow> (tmp, '';'', Some fin, [])
            | r2 # rest2 \<Rightarrow>
                if r2 = CHR '';'' then (tmp, '';'', None, rest2)
                else if \<not> IsSpace r2 then readUntilDelimiter_loop fin delim s rest
                else
                  (case processDelimiterCommand fin ''DELIMITER'' rest2 of
                     (token, Some e, rest3) \<Rightarrow> (tmp, delim, Some e, rest3)
                   | (token, None, rest3) \<Rightarrow> (tmp, DelimiterWord token, None, rest3))))
      else readUntilDelimiter_loop fin delim s rest)"

definition readUntilDelimiter ::
  "error \<Rightarrow> string \<Rightarrow> string \<Rightarrow> string \<times> string \<times> error option \<times> string" where
  "readUntilDelimiter fin delim s = readUntilDelimiter_loop fin delim [] s"

section \<open>What a call consumes\<close>

text \<open>
  Every function of the lexer returns the text it has consumed in front of the text it
  leaves: nothing is read twice and, when the call reports no error, nothing read is lost.
  \<^verbatim>\<open>NextToken\<close> and \<^verbatim>\<open>readUntilDelimiter\<close> consume at least one rune when they return
  without error, which is why the loop of \<^verbatim>\<open>Split\<close> ends.
\<close>

lemma readQuotedString_loop_consumes:
  "readQuotedString_loop fin q b s = (tok, err, s') \<Longrightarrow>
     Value tok @ s' = b @ s \<and> length s' \<le> length s \<and> Type tok = TokenText"
  by (induction fin q b s rule: readQuotedString_loop.induct)
     (auto simp: textToken_def split: if_splits list.splits)

lemma readLineComment_loop_consumes:
  "readLineComment_loop fin b s = (tok, err, s') \<Longrightarrow>
     Value tok @ s' = b @ s \<and> length s' \<le> length s \<and> Type tok = TokenText"
  by (induction fin b s rule: readLineComment_loop.induct)
     (auto simp: textToken_def split: if_splits list.splits)

lemma readBlockComment_loop_consumes:
  "readBlockComment_loop fin b s = (tok, err, s') \<Longrightarrow>
     Value tok @ s' = b @ s \<and> length s' \<le> length s \<and> Type tok = TokenText"
proof (induction s arbitrary: b)
  case Nil
  then show ?case by (auto simp: textToken_def)
next
  case (Cons r s)
  show ?case
  proof (cases "r = CHR ''*''")
    case False
    with Cons.prems have "readBlockComment_loop fin (b @ [r]) s = (tok, err, s')" by simp
    from Cons.IH[OF this] show ?thesis by simp
  next
    case star: True
    show ?thesis
    proof (cases s)
      case Nil
      with star Cons.prems show ?thesis by (auto simp: textToken_def split: if_splits)
    next
      case (Cons n s2)
      show ?thesis
      proof (cases "n = CHR ''/''")
        case True
        with star Cons Cons.prems show ?thesis by (auto simp: textToken_def)
      next
        case False
        with star Cons Cons.prems
        have "readBlockComment_loop fin (b @ [r]) s = (tok, err, s')" by simp
        from Cons.IH[OF this] show ?thesis by simp
      qed
    qed
  qed
qed

lemma readUntilBlockDelimiter_loop_consumes:
  "readUntilBlockDelimiter_loop fin e b w c s = (content, err, s') \<Longrightarrow>
     content @ s' = b @ s \<and> length s' \<le> length s"
proof (induction s arbitrary: b w c)
  case Nil
  then show ?case by simp
next
  case (Cons r s)
  then show ?case by (fastforce simp: Let_def split: if_splits)
qed

lemma readUntilRune_loop_consumes:
  "readUntilRune_loop fin d b s = (tag, err, s') \<Longrightarrow>
     tag @ s' = b @ s \<and> length s' \<le> length s"
  by (induction fin d b s rule: readUntilRune_loop.induct)
     (auto split: if_splits)

lemma processDelimiterCommand_loop_consumes:
  "processDelimiterCommand_loop fin b s = (tok, err, s') \<Longrightarrow>
     Value tok @ s' = b @ s \<and> length s' \<le> length s \<and> Type tok = TokenDelimiterCommand"
  by (induction fin b s rule: processDelimiterCommand_loop.induct)
     (auto simp: Let_def split: if_splits)

lemma skipSpace_loop_consumes:
  "skipSpace_loop fin b s = (res, err, s') \<Longrightarrow> res @ s' = b @ s \<and> length s' \<le> length s"
  by (induction fin b s rule: skipSpace_loop.induct) (auto split: if_splits)

lemma readWord_loop_consumes:
  "readWord_loop fin b s = (res, err, s') \<Longrightarrow> res @ s' = b @ s \<and> length s' \<le> length s"
  by (induction fin b s rule: readWord_loop.induct) (auto split: if_splits)

lemma processAsBlockStart_consumes:
  assumes "processAsBlockStart fin word s = (tok, None, s')"
  shows "Value tok @ s' = word @ s \<and> length s' \<le> length s \<and> Type tok = TokenText"
  using assms
  unfolding processAsBlockStart_def readUntilRune_def readUntilBlockDelimiter_def
  by (auto simp: textToken_def Let_def split: prod.splits option.splits list.splits if_splits
      dest!: skipSpace_loop_consumes readUntilRune_loop_consumes readUntilBlockDelimiter_loop_consumes)

lemma readWord_consumes:
  assumes "readWord fin first s = (tok, None, s')"
  shows "Value tok @ s' = first # s \<and> length s' \<le> length s"
  using assms
  unfolding readWord_def processDelimiterCommand_def
  by (auto simp: textToken_def Let_def split: prod.splits option.splits if_splits
      dest!: readWord_loop_consumes processAsBlockStart_consumes processDelimiterCommand_loop_consumes)


lemma NextToken_consumes:
  assumes "NextToken fin s = (tok, None, s')"
  shows "Value tok @ s' = s \<and> length s' < length s"
proof (cases s)
  case Nil
  with assms show ?thesis by simp
next
  case (Cons r t)
  consider (quote) "r = SQUOTE \<or> r = DQUOTE"
    | (minus) "r \<noteq> SQUOTE" "r \<noteq> DQUOTE" "r = CHR ''-''"
    | (slash) "r \<noteq> SQUOTE" "r \<noteq> DQUOTE" "r \<noteq> CHR ''-''" "r = CHR ''/''"
    | (semi) "r \<noteq> SQUOTE" "r \<noteq> DQUOTE" "r \<noteq> CHR ''-''" "r \<noteq> CHR ''/''" "r = CHR '';''"
    | (word) "r \<noteq> SQUOTE" "r \<noteq> DQUOTE" "r \<noteq> CHR ''-''" "r \<noteq> CHR ''/''" "r \<noteq> CHR '';''"
        "IsLetter r \<or> r = CHR ''_''"
    | (other) "r \<noteq> SQUOTE" "r \<noteq> DQUOTE" "r \<noteq> CHR ''-''" "r \<noteq> CHR ''/''" "r \<noteq> CHR '';''"
        "\<not> (IsLetter r \<or> r = CHR ''_'')"
    by blast
  then show ?thesis
  proof cases
    case quote
    with assms Cons have "readQuotedString_loop fin r [r] t = (tok, None, s')"
      by (auto simp: readQuotedString_def)
    from readQuotedString_loop_consumes[OF this] Cons show ?thesis by simp
  next
    case minus
    show ?thesis
    proof (cases "\<exists>t'. t = CHR ''-'' # t'")
      case True
      then obtain t' where t: "t = CHR ''-'' # t'" by blast
      with assms Cons minus
      have "readLineComment_loop fin (''-'' @ ''-'') t' = (tok, None, s')"
        by (simp add: readLineComment_def)
      from readLineComment_loop_consumes[OF this] Cons t minus show ?thesis by simp
    next
      case False
      with assms Cons minus show ?thesis
        by (auto simp: textToken_def split: list.splits if_splits)
    qed
  next
    case slash
    show ?thesis
    proof (cases "\<exists>t'. t = CHR ''*'' # t'")
      case True
      then obtain t' where t: "t = CHR ''*'' # t'" by blast
      with assms Cons slash
      have "readBlockComment_loop fin (''/'' @ ''*'') t' = (tok, None, s')"
        by (simp add: readBlockComment_def)
      from readBlockComment_loop_consumes[OF this] Cons t slash show ?thesis by simp
    next
      case False
      with assms Cons slash show ?thesis
        by (auto simp: textToken_def split: list.splits if_splits)
    qed
  next
    case semi
    with assms Cons show ?thesis by auto
  next
    case word
    with assms Cons have "readWord fin r t = (tok, None, s')" by simp
    from readWord_consumes[OF this] Cons show ?thesis by simp
  next
    case other
    with assms Cons show ?thesis by (auto simp: textToken_def)
  qed
qed

lemma readUntilDelimiter_loop_consumes:
  "readUntilDelimiter_loop fin d b s = (content, nd, None, s') \<Longrightarrow> length s' < length s"
proof (induction s arbitrary: b)
  case Nil
  then show ?case by simp
next
  case (Cons r rest)
  let ?s = "b @ [r]"
  let ?tmp = "take (length ?s - length ''DELIMITER'') ?s"
  show ?case
  proof (cases "HasSuffix ?s d")
    case True
    with Cons.prems show ?thesis by (simp add: Let_def)
  next
    case nodelim: False
    show ?thesis
    proof (cases "HasSuffix (ToUpper ?s) ''DELIMITER''")
      case False
      with nodelim Cons.prems have "readUntilDelimiter_loop fin d ?s rest = (content, nd, None, s')"
        by (simp add: Let_def)
      from Cons.IH[OF this] show ?thesis by simp
    next
      case kw: True
      show ?thesis
      proof (cases "?tmp \<noteq> [] \<and> last ?tmp \<noteq> CHR '';'' \<and> \<not> IsSpace (last ?tmp)")
        case True
        with nodelim kw Cons.prems
        have "readUntilDelimiter_loop fin d ?s rest = (content, nd, None, s')"
          by (simp add: Let_def)
        from Cons.IH[OF this] show ?thesis by simp
      next
        case boundary: False
        show ?thesis
        proof (cases rest)
          case Nil
          with nodelim kw boundary Cons.prems show ?thesis
            by (auto simp: Let_def split: if_splits)
        next
          case (Cons r2 rest2)
          note rest = this
          show ?thesis
          proof (cases "r2 = CHR '';''")
            case True
            with nodelim kw boundary rest Cons.prems show ?thesis
              by (auto simp: Let_def split: if_splits)
          next
            case nosemi: False
            show ?thesis
            proof (cases "IsSpace r2")
              case False
              with nodelim kw boundary rest nosemi Cons.prems
              have "readUntilDelimiter_loop fin d ?s rest = (content, nd, None, s')"
                by (auto simp: Let_def split: if_splits)
              from Cons.IH[OF this] show ?thesis by simp
            next
              case True
              obtain token e rest3 where
                p: "processDelimiterCommand_loop fin ''DELIMITER'' rest2 = (token, e, rest3)"
                by (cases "processDelimiterCommand_loop fin ''DELIMITER'' rest2") auto
              from processDelimiterCommand_loop_consumes[OF p]
              have "length rest3 \<le> length rest2" by simp
              moreover from nodelim kw boundary rest nosemi True p Cons.prems
              have "s' = rest3"
                by (auto simp: Let_def processDelimiterCommand_def split: option.splits if_splits)
              ultimately show ?thesis using rest by simp
            qed
          qed
        qed
      qed
    qed
  qed
qed

section \<open>The statement assembler\<close>

text \<open>
  The local variables of \<^verbatim>\<open>Split\<close> and the tokenizer's reader form the state of its loop.
  \<open>Split_token\<close> is the \<^verbatim>\<open>switch\<close> on the token type, \<open>Split_step\<close> one run of the
  loop body: it continues, leaves the loop (\<^verbatim>\<open>break\<close>) or returns the error.
\<close>

record split_state =
  reader :: string
  statements :: "string list"
  stmtBuilder :: string
  beginDepth :: int
  currentDelim :: string

definition Split_token :: "Token \<Rightarrow> split_state \<Rightarrow> split_state" where
  "Split_token token st =
     (case Type token of
        TokenSemicolon \<Rightarrow>
          if beginDepth st = 0 then
            (let b = stmtBuilder st @ Value token in
             if length b > 0 then st\<lparr>statements := statements st @ [b], stmtBuilder := []\<rparr>
             else st\<lparr>stmtBuilder := b\<rparr>)
          else st\<lparr>stmtBuilder := stmtBuilder st @ Value token\<rparr>
      | TokenBegin \<Rightarrow>
          st\<lparr>beginDepth := beginDepth st + 1, stmtBuilder := stmtBuilder st @ Value token\<rparr>
      | TokenEnd \<Rightarrow>
          (if beginDepth st > 0 then st\<lparr>beginDepth := beginDepth st - 1\<rparr> else st)
             \<lparr>stmtBuilder := stmtBuilder st @ Value token\<rparr>
      | TokenDelimiterCommand \<Rightarrow>
          st\<lparr>currentDelim := DelimiterWord token, stmtBuilder := []\<rparr>
      | TokenText \<Rightarrow> st\<lparr>stmtBuilder := stmtBuilder st @ Value token\<rparr>)"

datatype control = Continue split_state | Break split_state | Return error

definition Split_step :: "error \<Rightarrow> split_state \<Rightarrow> control" where
  "Split_step fin st =
     (if currentDelim st \<noteq> '';'' then
        (case readUntilDelimiter fin (currentDelim st) (reader st) of
           (content, nextDelim, Some err, rest) \<Rightarrow>
             if err = EOF then
               (let b = (if content \<noteq> [] then stmtBuilder st @ content else stmtBuilder st) in
                if length b > 0
                then Break (st\<lparr>reader := rest, statements := statements st @ [b], stmtBuilder := []\<rparr>)
                else Break (st\<lparr>reader := rest, stmtBuilder := b\<rparr>))
             else Return err
         | (content, nextDelim, None, rest) \<Rightarrow>
             (let b = stmtBuilder st @ content in
              Continue (st\<lparr>reader := rest,
                statements := (if TrimSpace b \<noteq> [] then statements st @ [b] else statements st),
                stmtBuilder := [], currentDelim := nextDelim\<rparr>)))
      else
        (case NextToken fin (reader st) of
           (token, Some err, rest) \<Rightarrow>
             if err = EOF then Break (st\<lparr>reader := rest\<rparr>) else Return err
         | (token, None, rest) \<Rightarrow> Continue (Split_token token (st\<lparr>reader := rest\<rparr>))))"

lemma reader_Split_token [simp]: "reader (Split_token token st) = reader st"
  by (simp add: Split_token_def Let_def split: TokenType.splits)

lemma Split_step_consumes:
  assumes "Split_step fin st = Continue st'"
  shows "length (reader st') < length (reader st)"
proof (cases "currentDelim st = '';''")
  case True
  obtain token e rest where n: "NextToken fin (reader st) = (token, e, rest)"
    by (cases "NextToken fin (reader st)") auto
  with assms True have "e = None" and "st' = Split_token token (st\<lparr>reader := rest\<rparr>)"
    by (auto simp: Split_step_def split: option.splits if_splits)
  with NextToken_consumes[of fin "reader st" token rest] n show ?thesis by simp
next
  case False
  obtain content nd e rest where
    r: "readUntilDelimiter_loop fin (currentDelim st) [] (reader st) = (content, nd, e, rest)"
    by (cases "readUntilDelimiter_loop fin (currentDelim st) [] (reader st)") auto
  with assms False have "e = None" and "reader st' = rest"
    by (auto simp: Split_step_def readUntilDelimiter_def Let_def split: option.splits if_splits)
  with readUntilDelimiter_loop_consumes[of fin "currentDelim st" "[]" "reader st" content nd rest] r
  show ?thesis by simp
qed

function SplitLoop :: "error \<Rightarrow> split_state \<Rightarrow> error + split_state" where
  "SplitLoop fin st =
     (case Split_step fin st of
        Continue st' \<Rightarrow> SplitLoop fin st'
      | Break st' \<Rightarrow> Inr st'
      | Return err \<Rightarrow> Inl err)"
  by pat_completeness auto
termination
  by (relation "measure (\<lambda>(fin, st). length (reader st))") (auto dest: Split_step_consumes)

declare SplitLoop.simps [simp del]

definition Split :: "error \<Rightarrow> string \<Rightarrow> error + string list" where
  "Split fin input =
     (case SplitLoop fin \<lparr>reader = input, statements = [], stmtBuilder = [],
                          beginDepth = 0, currentDelim = '';''\<rparr> of
        Inl err \<Rightarrow> Inl err
      | Inr st \<Rightarrow>
          Inr (if length (stmtBuilder st) > 0 then statements st @ [stmtBuilder st]
               else statements st))"

section \<open>The annotation block splitter\<close>

text \<open>
  \<^verbatim>\<open>SplitByDelimiter\<close> reads its input line by line through a \<^verbatim>\<open>bufio.Scanner\<close>.
  \<open>ScanLines\<close> is the scanner's default split function applied to the whole text: the
  lines are the pieces between newlines, each without one trailing carriage return, and a
  last line without newline counts when it is not empty. The text is read without an I/O
  error and no line outgrows the scanner's buffer, so \<^verbatim>\<open>scanner.Err()\<close> is \<^verbatim>\<open>nil\<close> and the
  two \<^verbatim>\<open>log.Fatalf\<close> exits are not taken (a \<^verbatim>\<open>strings.Builder\<close> never fails to write).
\<close>

definition dropCR :: "string \<Rightarrow> string" where
  "dropCR data = (if data \<noteq> [] \<and> last data = CR then butlast data else data)"

fun ScanLines_from :: "string \<Rightarrow> string \<Rightarrow> string list" where
  "ScanLines_from cur [] = (if cur = [] then [] else [dropCR cur])"
| "ScanLines_from cur (c # cs) =
     (if c = NL then dropCR cur # ScanLines_from [] cs else ScanLines_from (cur @ [c]) cs)"

definition ScanLines :: "string \<Rightarrow> string list" where
  "ScanLines text = ScanLines_from [] text"

record scan_state =
  buf :: string
  isFirst :: bool
  inStatementBlock :: bool
  stmts :: "string list"
  blocks :: "bool list"

text \<open>
  The variable \<^verbatim>\<open>cmd\<close> of the loop body: the command word of a comment line, empty for a
  line that is no comment or names no command.
\<close>

definition lineCmd :: "string \<Rightarrow> string \<Rightarrow> string" where
  "lineCmd prefix text =
     (let line = TrimSpace text in
      if HasPrefix line ''--'' then
        (let ss = Fields line in
         if prefix = [] then
           (if length ss = 2 then TrimPrefix (ss ! 1) ''+'' else [])
         else if length ss = 3 \<and> (ss ! 1 = prefix \<or> ss ! 1 = ''+'' @ prefix) then ss ! 2
         else if length ss = 2 then TrimPrefix (ss ! 1) ''+''
         else [])
      else [])"

definition isBeginCmd :: "string \<Rightarrow> bool" where
  "isBeginCmd cmd = (cmd = ''StatementBegin'' \<or> cmd = ''statementBegin'')"

definition isEndCmd :: "string \<Rightarrow> bool" where
  "isEndCmd cmd = (cmd = ''StatementEnd'' \<or> cmd = ''statementEnd'')"

text \<open>One run of the loop body, on the line \<open>text\<close>.\<close>

definition SplitByDelimiter_line :: "string \<Rightarrow> scan_state \<Rightarrow> string \<Rightarrow> scan_state" where
  "SplitByDelimiter_line prefix st text =
     (let cmd = lineCmd prefix text in
      if isBeginCmd cmd then
        (let st1 = (if TrimSpace (buf st) \<noteq> []
                    then st\<lparr>stmts := stmts st @ [buf st], blocks := blocks st @ [False]\<rparr>
                    else st)
         in st1\<lparr>buf := text, isFirst := False, inStatementBlock := True\<rparr>)
      else if isEndCmd cmd then
        (let b = (if \<not> isFirst st then buf st @ [NL] else buf st) @ text
         in st\<lparr>stmts := stmts st @ [b], blocks := blocks st @ [True], buf := [],
               isFirst := True, inStatementBlock := False\<rparr>)
      else
        st\<lparr>isFirst := False,
           buf := (if isFirst st then buf st else buf st @ [NL]) @ text\<rparr>)"

fun SplitByDelimiter_loop :: "string \<Rightarrow> scan_state \<Rightarrow> string list \<Rightarrow> scan_state" where
  "SplitByDelimiter_loop prefix st [] = st"
| "SplitByDelimiter_loop prefix st (text # rest) =
     SplitByDelimiter_loop prefix (SplitByDelimiter_line prefix st text) rest"

definition SplitByDelimiter :: "string \<Rightarrow> string \<Rightarrow> string list \<times> bool list" where
  "SplitByDelimiter r prefix =
     (let st = SplitByDelimiter_loop prefix
                 \<lparr>buf = [], isFirst = True, inStatementBlock = False, stmts = [], blocks = []\<rparr>
                 (ScanLines r)
      in if length (buf st) > 0 \<and> TrimSpace (buf st) \<noteq> []
         then (stmts st @ [buf st], blocks st @ [False])
         else (stmts st, blocks st))"

section \<open>A delimiter directive in standard mode\<close>

text \<open>
  C8. When the loop of \<^verbatim>\<open>Split\<close> is in standard mode and the lexer returns a delimiter
  directive, the step sets the active delimiter to the directive's delimiter word and
  empties the statement buffer; the statements emitted so far and the block depth stay as
  they are, so nothing is appended to the output at that step.
\<close>

theorem Split_step_delimiter_directive:
  assumes "currentDelim st = '';''"
    and "NextToken fin (reader st) = (token, None, rest)"
    and "Type token = TokenDelimiterCommand"
  shows "Split_step fin st =
           Continue (st\<lparr>reader := rest, stmtBuilder := [], currentDelim := DelimiterWord token\<rparr>)
         \<and> statements (st\<lparr>reader := rest, stmtBuilder := [], currentDelim := DelimiterWord token\<rparr>) = statements st
         \<and> beginDepth (st\<lparr>reader := rest, stmtBuilder := [], currentDelim := DelimiterWord token\<rparr>) = beginDepth st"
  using assms by (simp add: Split_step_def Split_token_def)

theorem Split_step_delimiter_directive_witness:
  "Split_step EOF \<lparr>reader = ''DELIMITER //'' @ [NL] @ ''X'', statements = [''a;''],
       stmtBuilder = ''pending'', beginDepth = 2, currentDelim = '';''\<rparr> =
     Continue \<lparr>reader = ''X'', statements = [''a;''], stmtBuilder = [], beginDepth = 2,
       currentDelim = ''//''\<rparr>"
proof -
  let ?st = "\<lparr>reader = ''DELIMITER //'' @ [NL] @ ''X'', statements = [''a;''],
       stmtBuilder = ''pending'', beginDepth = 2, currentDelim = '';''\<rparr>"
  let ?tok = "\<lparr>Type = TokenDelimiterCommand, Value = ''DELIMITER //'' @ [NL],
       DelimiterWord = ''//''\<rparr>"
  have h1: "currentDelim ?st = '';''" by simp
  have h2: "NextToken EOF (reader ?st) = (?tok, None, ''X'')" by code_simp
  have h3: "Type ?tok = TokenDelimiterCommand" by simp
  from Split_step_delimiter_directive[OF h1 h2 h3] show ?thesis by simp
qed

section \<open>End of the text inside a quoted string\<close>

text \<open>
  C2. The claim is that a text ending inside a quoted string keeps the opening quote and
  the partial literal in the final statement. \<^verbatim>\<open>readQuotedString\<close> does return the partial
  literal, together with \<^verbatim>\<open>io.EOF\<close>; the standard-mode branch of \<^verbatim>\<open>Split\<close> leaves the loop
  on that error without writing the token, so the partial literal is lost: the text
  \<^verbatim>\<open>SELECT 'abc\<close> yields the single statement \<^verbatim>\<open>SELECT \<close> (with its trailing blank).
\<close>

theorem Split_drops_unterminated_quote:
  "NextToken EOF ([SQUOTE] @ ''abc'') = (textToken ([SQUOTE] @ ''abc''), Some EOF, [])
   \<and> Split EOF (''SELECT '' @ [SQUOTE] @ ''abc'') = Inr [''SELECT '']"
  by code_simp

section \<open>The delimiter word of a directive in standard mode\<close>

text \<open>
  C7. \<^verbatim>\<open>readWord\<close> recognises the keyword in any letter case, but
  \<^verbatim>\<open>processDelimiterCommand\<close> removes the prefix \<^verbatim>\<open>DELIMITER\<close> in upper case only. For the
  line \<^verbatim>\<open>delimiter //\<close> the keyword stays in the delimiter word, which is
  \<^verbatim>\<open>delimiter //\<close> and not \<^verbatim>\<open>//\<close>.
\<close>

theorem lowercase_delimiter_word:
  "NextToken EOF (''delimiter //'' @ [NL] @ ''CALL proc()//'') =
     (\<lparr>Type = TokenDelimiterCommand, Value = ''delimiter //'' @ [NL],
       DelimiterWord = ''delimiter //''\<rparr>, None, ''CALL proc()//'')"
  by code_simp

section \<open>The flags of the annotation block splitter\<close>

text \<open>
  The last line of a segment is what follows its last newline. The lines the scanner
  delivers contain no newline, so the last line of a segment is the line appended last.
\<close>

definition lastLine :: "string \<Rightarrow> string" where
  "lastLine seg = rev (takeWhile (\<lambda>c. c \<noteq> NL) (rev seg))"

lemma lastLine_plain: "NL \<notin> set t \<Longrightarrow> lastLine t = t"
proof -
  assume a: "NL \<notin> set t"
  have "\<forall>x\<in>set (rev t). x \<noteq> NL" using a by auto
  then have "takeWhile (\<lambda>c. c \<noteq> NL) (rev t) = rev t"
    by (simp only: takeWhile_eq_all_conv)
  then show ?thesis by (simp only: lastLine_def rev_rev_ident)
qed

lemma lastLine_append: "NL \<notin> set t \<Longrightarrow> lastLine (a @ NL # t) = t"
proof -
  assume a: "NL \<notin> set t"
  have "\<And>x. x \<in> set (rev t) \<Longrightarrow> x \<noteq> NL" using a by auto
  then have "takeWhile (\<lambda>c. c \<noteq> NL) (rev t @ NL # rev a) =
      rev t @ takeWhile (\<lambda>c. c \<noteq> NL) (NL # rev a)"
    by (rule takeWhile_append2)
  then show ?thesis by (simp add: lastLine_def)
qed

lemma ScanLines_from_no_NL:
  "NL \<notin> set cur \<Longrightarrow> l \<in> set (ScanLines_from cur s) \<Longrightarrow> NL \<notin> set l"
proof (induction cur s rule: ScanLines_from.induct)
  case (1 cur)
  then show ?case by (auto simp: dropCR_def split: if_splits dest: in_set_butlastD)
next
  case (2 cur c cs)
  then show ?case by (auto simp: dropCR_def split: if_splits dest: in_set_butlastD)
qed

lemma ScanLines_no_NL: "l \<in> set (ScanLines r) \<Longrightarrow> NL \<notin> set l"
  unfolding ScanLines_def by (rule ScanLines_from_no_NL[of "[]"]) simp_all

lemma begin_not_end: "isBeginCmd cmd \<Longrightarrow> \<not> isEndCmd cmd"
  by (auto simp: isBeginCmd_def isEndCmd_def)

definition scan_inv :: "string \<Rightarrow> scan_state \<Rightarrow> bool" where
  "scan_inv prefix st \<longleftrightarrow>
     blocks st = map (\<lambda>seg. isEndCmd (lineCmd prefix (lastLine seg))) (stmts st) \<and>
     (isFirst st \<longrightarrow> buf st = []) \<and>
     (buf st \<noteq> [] \<longrightarrow> \<not> isEndCmd (lineCmd prefix (lastLine (buf st))))"

lemma lineCmd_empty: "lineCmd prefix [] = []"
  by (simp add: lineCmd_def TrimSpace_def HasPrefix_def)

lemma scan_inv_line:
  assumes "scan_inv prefix st" and "NL \<notin> set text"
  shows "scan_inv prefix (SplitByDelimiter_line prefix st text)"
proof -
  have ll: "lastLine (buf st @ NL # text) = text" "lastLine text = text"
    using assms(2) by (simp_all add: lastLine_append lastLine_plain)
  consider (b) "isBeginCmd (lineCmd prefix text)"
    | (e) "\<not> isBeginCmd (lineCmd prefix text)" "isEndCmd (lineCmd prefix text)"
    | (o) "\<not> isBeginCmd (lineCmd prefix text)" "\<not> isEndCmd (lineCmd prefix text)"
    by blast
  then show ?thesis
  proof cases
    case b
    from b have ne: "\<not> isEndCmd (lineCmd prefix text)" by (rule begin_not_end)
    have "TrimSpace (buf st) \<noteq> [] \<Longrightarrow> buf st \<noteq> []" by (auto simp: TrimSpace_def)
    with assms(1) b ne ll show ?thesis
      by (auto simp: scan_inv_def SplitByDelimiter_line_def Let_def)
  next
    case e
    with assms(1) ll show ?thesis
      by (auto simp: scan_inv_def SplitByDelimiter_line_def Let_def)
  next
    case o
    with assms(1) ll show ?thesis
      by (auto simp: scan_inv_def SplitByDelimiter_line_def Let_def)
  qed
qed

lemma scan_inv_loop:
  "scan_inv prefix st \<Longrightarrow> \<forall>l\<in>set ls. NL \<notin> set l \<Longrightarrow>
   scan_inv prefix (SplitByDelimiter_loop prefix st ls)"
  by (induction ls arbitrary: st) (auto intro: scan_inv_line)

lemma scan_inv_init:
  "scan_inv prefix \<lparr>buf = [], isFirst = True, inStatementBlock = False, stmts = [], blocks = []\<rparr>"
  by (simp add: scan_inv_def)

lemma SplitByDelimiter_flags:
  "snd (SplitByDelimiter r prefix) =
     map (\<lambda>seg. isEndCmd (lineCmd prefix (lastLine seg))) (fst (SplitByDelimiter r prefix))"
proof -
  let ?st = "SplitByDelimiter_loop prefix
      \<lparr>buf = [], isFirst = True, inStatementBlock = False, stmts = [], blocks = []\<rparr> (ScanLines r)"
  have "scan_inv prefix ?st"
    by (rule scan_inv_loop[OF scan_inv_init]) (auto dest: ScanLines_no_NL)
  then show ?thesis
    by (auto simp: SplitByDelimiter_def scan_inv_def Let_def)
qed


text \<open>
  C9. A returned segment is flagged as an atomic block exactly when it was flushed by a
  recognised end-marker line. Seen from the result: the flag of a segment is true if and
  only if the last line of the segment is a line the splitter recognises as an end marker
  (so a flagged segment ends with that marker line). Seen from the loop: a run of the loop
  body on an end-marker line appends one segment, the buffer followed by the marker line,
  with the flag true; a run on any other line appends nothing, or (on a begin marker with
  a non-blank buffer) the buffer with the flag false; and the flush at the end of the input
  appends the buffer with the flag false.
\<close>

theorem SplitByDelimiter_atomic_blocks:
  "snd (SplitByDelimiter r prefix) =
     map (\<lambda>seg. isEndCmd (lineCmd prefix (lastLine seg))) (fst (SplitByDelimiter r prefix))
   \<and> (isEndCmd (lineCmd prefix text) \<longrightarrow>
        stmts (SplitByDelimiter_line prefix st text) =
          stmts st @ [(if isFirst st then buf st else buf st @ [NL]) @ text] \<and>
        blocks (SplitByDelimiter_line prefix st text) = blocks st @ [True])
   \<and> (\<not> isEndCmd (lineCmd prefix text) \<longrightarrow>
        (stmts (SplitByDelimiter_line prefix st text) = stmts st \<and>
         blocks (SplitByDelimiter_line prefix st text) = blocks st) \<or>
        (isBeginCmd (lineCmd prefix text) \<and>
         stmts (SplitByDelimiter_line prefix st text) = stmts st @ [buf st] \<and>
         blocks (SplitByDelimiter_line prefix st text) = blocks st @ [False]))
   \<and> (let fin = SplitByDelimiter_loop prefix
                   \<lparr>buf = [], isFirst = True, inStatementBlock = False, stmts = [], blocks = []\<rparr>
                   (ScanLines r)
       in SplitByDelimiter r prefix = (stmts fin, blocks fin) \<or>
          SplitByDelimiter r prefix = (stmts fin @ [buf fin], blocks fin @ [False]))"
proof (intro conjI impI)
  show "snd (SplitByDelimiter r prefix) =
     map (\<lambda>seg. isEndCmd (lineCmd prefix (lastLine seg))) (fst (SplitByDelimiter r prefix))"
    by (rule SplitByDelimiter_flags)
next
  assume e: "isEndCmd (lineCmd prefix text)"
  then have nb: "\<not> isBeginCmd (lineCmd prefix text)" using begin_not_end by blast
  from e nb show "stmts (SplitByDelimiter_line prefix st text) =
          stmts st @ [(if isFirst st then buf st else buf st @ [NL]) @ text]"
    by (simp add: SplitByDelimiter_line_def Let_def)
  from e nb show "blocks (SplitByDelimiter_line prefix st text) = blocks st @ [True]"
    by (simp add: SplitByDelimiter_line_def Let_def)
next
  assume "\<not> isEndCmd (lineCmd prefix text)"
  then show "(stmts (SplitByDelimiter_line prefix st text) = stmts st \<and>
         blocks (SplitByDelimiter_line prefix st text) = blocks st) \<or>
        (isBeginCmd (lineCmd prefix text) \<and>
         stmts (SplitByDelimiter_line prefix st text) = stmts st @ [buf st] \<and>
         blocks (SplitByDelimiter_line prefix st text) = blocks st @ [False])"
    by (simp add: SplitByDelimiter_line_def Let_def)
next
  show "let fin = SplitByDelimiter_loop prefix
                   \<lparr>buf = [], isFirst = True, inStatementBlock = False, stmts = [], blocks = []\<rparr>
                   (ScanLines r)
       in SplitByDelimiter r prefix = (stmts fin, blocks fin) \<or>
          SplitByDelimiter r prefix = (stmts fin @ [buf fin], blocks fin @ [False])"
    by (simp add: SplitByDelimiter_def Let_def)
qed

definition goose_script :: string where
  "goose_script = ''DROP A;'' @ [NL] @ ''-- +goose StatementBegin'' @ [NL] @ ''CREATE F;'' @ [NL]
     @ ''END;'' @ [NL] @ ''-- +goose StatementEnd'' @ [NL] @ [NL] @ ''DROP B;'' @ [NL]"

lemma goose_script_result:
  "SplitByDelimiter goose_script ''goose'' =
     ([''DROP A;'',
       ''-- +goose StatementBegin'' @ [NL] @ ''CREATE F;'' @ [NL] @ ''END;'' @ [NL]
         @ ''-- +goose StatementEnd'',
       [NL] @ ''DROP B;''],
      [False, True, False])"
  by code_simp

theorem SplitByDelimiter_atomic_blocks_witness:
  "[False, True, False] =
     map (\<lambda>seg. isEndCmd (lineCmd ''goose'' (lastLine seg)))
       [''DROP A;'',
        ''-- +goose StatementBegin'' @ [NL] @ ''CREATE F;'' @ [NL] @ ''END;'' @ [NL]
          @ ''-- +goose StatementEnd'',
        [NL] @ ''DROP B;'']
   \<and> isEndCmd (lineCmd ''goose'' ''-- +goose StatementEnd'')
   \<and> blocks (SplitByDelimiter_line ''goose''
        \<lparr>buf = ''x'', isFirst = False, inStatementBlock = True, stmts = [], blocks = []\<rparr>
        ''-- +goose StatementEnd'') = [True]
   \<and> \<not> isEndCmd (lineCmd ''goose'' ''SELECT 1;'')
   \<and> blocks (SplitByDelimiter_line ''goose''
        \<lparr>buf = ''x'', isFirst = False, inStatementBlock = True, stmts = [], blocks = []\<rparr>
        ''SELECT 1;'') \<in> {[], [False]}"
proof -
  let ?st = "\<lparr>buf = ''x'', isFirst = False, inStatementBlock = True, stmts = [], blocks = []\<rparr>"
  have e: "isEndCmd (lineCmd ''goose'' ''-- +goose StatementEnd'')" by code_simp
  have n: "\<not> isEndCmd (lineCmd ''goose'' ''SELECT 1;'')" by code_simp
  note a = SplitByDelimiter_atomic_blocks[of goose_script "''goose''" "''-- +goose StatementEnd''" ?st]
  note b = SplitByDelimiter_atomic_blocks[of goose_script "''goose''" "''SELECT 1;''" ?st]
  from a have "snd (SplitByDelimiter goose_script ''goose'') =
     map (\<lambda>seg. isEndCmd (lineCmd ''goose'' (lastLine seg))) (fst (SplitByDelimiter goose_script ''goose''))"
    by blast
  then have 1: "[False, True, False] =
     map (\<lambda>seg. isEndCmd (lineCmd ''goose'' (lastLine seg)))
       [''DROP A;'',
        ''-- +goose StatementBegin'' @ [NL] @ ''CREATE F;'' @ [NL] @ ''END;'' @ [NL]
          @ ''-- +goose StatementEnd'',
        [NL] @ ''DROP B;'']"
    unfolding goose_script_result by simp
  from a e have 2: "blocks (SplitByDelimiter_line ''goose'' ?st ''-- +goose StatementEnd'') = [True]"
    by simp
  from b n have 3: "blocks (SplitByDelimiter_line ''goose'' ?st ''SELECT 1;'') \<in> {[], [False]}"
    by auto
  from 1 e 2 n 3 show ?thesis by blast
qed

lemma line_lengths:
  "length (stmts st) = length (blocks st) \<Longrightarrow>
   length (stmts (SplitByDelimiter_line prefix st text)) =
   length (blocks (SplitByDelimiter_line prefix st text))"
  by (simp add: SplitByDelimiter_line_def Let_def)

lemma loop_lengths:
  "length (stmts st) = length (blocks st) \<Longrightarrow>
   length (stmts (SplitByDelimiter_loop prefix st ls)) =
   length (blocks (SplitByDelimiter_loop prefix st ls))"
  by (induction ls arbitrary: st) (simp_all add: line_lengths)

text \<open>
  C10. For every input text and every prefix, the empty one included, the segment texts
  and the atomic-block flags returned by \<^verbatim>\<open>SplitByDelimiter\<close> are sequences of the same
  length.
\<close>

theorem SplitByDelimiter_lengths:
  "length (fst (SplitByDelimiter r prefix)) = length (snd (SplitByDelimiter r prefix))"
proof -
  have "length (stmts (SplitByDelimiter_loop prefix
      \<lparr>buf = [], isFirst = True, inStatementBlock = False, stmts = [], blocks = []\<rparr> (ScanLines r))) =
    length (blocks (SplitByDelimiter_loop prefix
      \<lparr>buf = [], isFirst = True, inStatementBlock = False, stmts = [], blocks = []\<rparr> (ScanLines r)))"
    by (rule loop_lengths) simp
  then show ?thesis by (simp add: SplitByDelimiter_def Let_def)
qed

theorem SplitByDelimiter_lengths_witness:
  "length (fst (SplitByDelimiter goose_script [])) = length (snd (SplitByDelimiter goose_script []))
   \<and> length (fst (SplitByDelimiter goose_script ''goose'')) = 3"
proof -
  have "length (snd (SplitByDelimiter goose_script ''goose'')) = 3"
    by (simp add: goose_script_result)
  with SplitByDelimiter_lengths[of goose_script "[]"]
    SplitByDelimiter_lengths[of goose_script "''goose''"]
  show ?thesis by simp
qed

section \<open>The round trip of a plain script\<close>









section \<open>Quoted literals\<close>






section \<open>Dollar-quoted bodies\<close>
















lemma readWord_loop_stop:
  "\<not> isWordRune p \<Longrightarrow> readWord_loop fin b (p # s) = (b, None, p # s)"
  by simp









end
